theory Spec2Isabelle
  imports Complex_Main
begin

section \<open>The Whack-a-Mole game loop of \<^verbatim>\<open>src/App.tsx\<close>\<close>

text \<open>
  The component \<^verbatim>\<open>App\<close> keeps its game in React state (\<^verbatim>\<open>moles\<close>, \<^verbatim>\<open>score\<close>,
  \<^verbatim>\<open>highScore\<close>, \<^verbatim>\<open>timeLeft\<close>, \<^verbatim>\<open>isPlaying\<close>) and in four refs
  (\<^verbatim>\<open>lastHoleRef\<close>, \<^verbatim>\<open>isPlayingRef\<close>, \<^verbatim>\<open>gameTimerRef\<close>, \<^verbatim>\<open>peepTimerRef\<close>).
  All of it is driven by callbacks: the click on Start, the whack of a mole, the
  one-shot timeout armed by \<^verbatim>\<open>peep\<close> and the interval armed by \<^verbatim>\<open>startGame\<close>.

  The embedding is a state record and one function per callback. JavaScript runs one
  callback at a time, so a callback is a function from the state before it to the state
  after it; the state updates it queues (\<^verbatim>\<open>setMoles\<close>, \<^verbatim>\<open>setScore\<close>, ...) are applied
  in the order in which it queues them, each updater function once, before the next
  callback runs. Three things that the source leaves to the platform are written out:
  \<^item> the browser's table of armed timers (\<open>timers\<close>): \<^verbatim>\<open>setTimeout\<close> and
    \<^verbatim>\<open>setInterval\<close> add an entry under a fresh handle, \<^verbatim>\<open>clearTimeout\<close> and
    \<^verbatim>\<open>clearInterval\<close> remove the entry of a handle, and only an entry of the table can
    fire. Real time is not modelled: an armed timer may fire at any moment, which
    covers every order of events that real delays allow;
  \<^item> what a closure captured when it was created: the interval's callback calls the
    \<^verbatim>\<open>endGame\<close> of the render in which \<^verbatim>\<open>startGame\<close> was created, whose \<^verbatim>\<open>score\<close>
    is the score of that render; \<^verbatim>\<open>peep\<close> reads the \<^verbatim>\<open>moles\<close> of the render that
    created it;
  \<^item> the values \<^verbatim>\<open>Math.random()\<close> returns during a callback, given as a list of reals.
    Numbers are reals and integers, not IEEE doubles.
  The audio cues and the mute flag belong to the presentation and are left out.
\<close>

subsection \<open>Data (\<^verbatim>\<open>src/types.ts\<close>)\<close>

datatype MoleStatus = IDLE | UP | WHACKED

text \<open>The field \<^verbatim>\<open>id\<close> of \<^verbatim>\<open>MoleData\<close> is \<open>id'\<close> here, \<open>id\<close> being the identity function.\<close>

record MoleData =
  id' :: int
  status :: MoleStatus

subsection \<open>Game configuration\<close>

definition GAME_DURATION :: int where
  "GAME_DURATION = 30"

definition MIN_PEEP_TIME :: real where
  "MIN_PEEP_TIME = 400"

definition MAX_PEEP_TIME :: real where
  "MAX_PEEP_TIME = 1000"

definition HOLE_COUNT :: nat where
  "HOLE_COUNT = 6"

subsection \<open>State\<close>

text \<open>
  An armed timer and what its callback captured: the timeout of \<^verbatim>\<open>peep\<close> holds the
  hole it will put down, its delay and the \<^verbatim>\<open>moles\<close> of the \<^verbatim>\<open>peep\<close> that armed it
  (the callback calls that same \<^verbatim>\<open>peep\<close> again); the interval of \<^verbatim>\<open>startGame\<close>
  holds the \<^verbatim>\<open>score\<close> that its \<^verbatim>\<open>endGame\<close> reads.
\<close>

datatype timer =
  Timeout int int "MoleData list"
| Interval int

record state =
  moles :: "MoleData list"
  score :: int
  highScore :: int
  timeLeft :: int
  isPlaying :: bool
  lastHoleRef :: int
  isPlayingRef :: bool
  gameTimerRef :: "nat option"
  peepTimerRef :: "nat option"
  timers :: "nat \<rightharpoonup> timer"
  nextHandle :: nat

text \<open>
  \<^verbatim>\<open>TypeError\<close>: reading \<^verbatim>\<open>.id\<close> of \<^verbatim>\<open>undefined\<close>, when the index is outside the array.
  \<^verbatim>\<open>RandomExhausted\<close>: the call has not returned on the random values supplied
  (\<^verbatim>\<open>randomHole\<close> draws again without bound while it draws the last hole).
\<close>

datatype error = TypeError | RandomExhausted

text \<open>\<^verbatim>\<open>Array.from({ length: HOLE_COUNT }, (_, i) => ({ id: i, status: MoleStatus.IDLE }))\<close>\<close>

definition freshMoles :: "MoleData list" where
  "freshMoles = map (\<lambda>i. \<lparr>id' = int i, status = IDLE\<rparr>) [0..<HOLE_COUNT]"

text \<open>The state after the first render: the \<^verbatim>\<open>useState\<close> and \<^verbatim>\<open>useRef\<close> initial values,
  no timer armed. Handles are positive, as the browser's are.\<close>

definition initialState :: state where
  "initialState =
     \<lparr>moles = freshMoles, score = 0, highScore = 0, timeLeft = GAME_DURATION,
      isPlaying = False, lastHoleRef = - 1, isPlayingRef = False,
      gameTimerRef = None, peepTimerRef = None, timers = Map.empty, nextHandle = 1\<rparr>"

subsection \<open>Helpers\<close>

text \<open>\<^verbatim>\<open>Math.round\<close> rounds to the nearest integer, a half upwards.\<close>

definition Math_round :: "real \<Rightarrow> int" where
  "Math_round x = \<lfloor>x + 1 / 2\<rfloor>"

text \<open>\<^verbatim>\<open>randomTime(min, max)\<close>, with \<open>r\<close> the value of \<^verbatim>\<open>Math.random()\<close>.\<close>

definition randomTime :: "real \<Rightarrow> real \<Rightarrow> real \<Rightarrow> int" where
  "randomTime mn mx r = Math_round (r * (mx - mn) + mn)"

text \<open>
  \<^verbatim>\<open>randomHole(currentMoles)\<close>: each call of the recursion takes one value of
  \<^verbatim>\<open>Math.random()\<close>. It returns the hole, the random values left and the state, in
  which \<^verbatim>\<open>lastHoleRef.current\<close> is the hole.
\<close>

fun randomHole :: "MoleData list \<Rightarrow> real list \<Rightarrow> state \<Rightarrow> error + (int \<times> real list \<times> state)" where
  "randomHole currentMoles [] s = Inl RandomExhausted"
| "randomHole currentMoles (r # rs) s =
     (let idx = \<lfloor>r * real (length currentMoles)\<rfloor> in
      if idx < 0 \<or> int (length currentMoles) \<le> idx then Inl TypeError
      else let hole = id' (currentMoles ! nat idx) in
        if hole = lastHoleRef s then randomHole currentMoles rs s
        else Inr (hole, rs, s\<lparr>lastHoleRef := hole\<rparr>))"

text \<open>\<^verbatim>\<open>clearTimeout(h)\<close> and \<^verbatim>\<open>clearInterval(h)\<close> behind their guard
  \<^verbatim>\<open>if (ref.current)\<close>: \<^verbatim>\<open>null\<close> and \<open>0\<close> are falsy.\<close>

fun clearTimer :: "nat option \<Rightarrow> (nat \<rightharpoonup> timer) \<Rightarrow> (nat \<rightharpoonup> timer)" where
  "clearTimer None ts = ts"
| "clearTimer (Some h) ts = (if h = 0 then ts else ts(h := None))"

subsection \<open>The peep cycle\<close>

text \<open>
  \<^verbatim>\<open>peep\<close>, with \<open>cm\<close> the \<^verbatim>\<open>moles\<close> it captured: it draws the time, then the hole,
  sets that mole \<^verbatim>\<open>UP\<close> and arms the timeout that will put it down.
\<close>

definition peep :: "MoleData list \<Rightarrow> real list \<Rightarrow> state \<Rightarrow> error + state" where
  "peep cm rs s =
     (if \<not> isPlayingRef s then Inr s
      else case rs of
        [] \<Rightarrow> Inl RandomExhausted
      | r # rs' \<Rightarrow>
          (let time = randomTime MIN_PEEP_TIME MAX_PEEP_TIME r in
           case randomHole cm rs' s of
             Inl e \<Rightarrow> Inl e
           | Inr (holeIdx, rs'', s1) \<Rightarrow>
               (let h = nextHandle s1 in
                Inr (s1\<lparr>moles := map (\<lambda>m. if id' m = holeIdx then m\<lparr>status := UP\<rparr> else m) (moles s1),
                        timers := (timers s1)(h \<mapsto> Timeout holeIdx time cm),
                        nextHandle := h + 1,
                        peepTimerRef := Some h\<rparr>))))"

text \<open>The callback of the timeout armed by \<^verbatim>\<open>peep\<close>: the mole goes down whatever its
  status, and the loop continues while the game is played.\<close>

definition peepTimeout :: "int \<Rightarrow> MoleData list \<Rightarrow> real list \<Rightarrow> state \<Rightarrow> error + state" where
  "peepTimeout holeIdx cm rs s =
     (let s1 = s\<lparr>moles := map (\<lambda>m. if id' m = holeIdx then m\<lparr>status := IDLE\<rparr> else m) (moles s)\<rparr> in
      if isPlayingRef s1 then peep cm rs s1 else Inr s1)"

subsection \<open>Start and end of a game\<close>

text \<open>\<^verbatim>\<open>endGame\<close>, with \<open>c\<close> the \<^verbatim>\<open>score\<close> its closure captured.\<close>

definition endGame :: "int \<Rightarrow> state \<Rightarrow> state" where
  "endGame c s =
     s\<lparr>isPlaying := False,
       isPlayingRef := False,
       timers := clearTimer (peepTimerRef s) (clearTimer (gameTimerRef s) (timers s)),
       moles := map (\<lambda>m. m\<lparr>status := IDLE\<rparr>) (moles s),
       highScore := max (highScore s) c\<rparr>"

text \<open>The callback of the interval armed by \<^verbatim>\<open>startGame\<close>:
  \<^verbatim>\<open>setTimeLeft((prev) => { if (prev <= 1) { endGame(); return 0; } return prev - 1; })\<close>\<close>

definition gameTimerTick :: "int \<Rightarrow> state \<Rightarrow> state" where
  "gameTimerTick c s =
     (if timeLeft s \<le> 1 then (endGame c s)\<lparr>timeLeft := 0\<rparr>
      else s\<lparr>timeLeft := timeLeft s - 1\<rparr>)"

text \<open>
  \<^verbatim>\<open>startGame\<close>, called from the buttons of the current render: its \<^verbatim>\<open>isPlaying\<close>,
  the \<^verbatim>\<open>moles\<close> of its \<^verbatim>\<open>peep\<close> and the \<^verbatim>\<open>score\<close> of its \<^verbatim>\<open>endGame\<close> are the
  values of the state at the click.
\<close>

definition startGame :: "real list \<Rightarrow> state \<Rightarrow> error + state" where
  "startGame rs s =
     (if isPlaying s then Inr s
      else
        (let c = score s;
             cm = moles s;
             s1 = s\<lparr>score := 0, timeLeft := GAME_DURATION, isPlaying := True,
                    isPlayingRef := True, moles := freshMoles\<rparr>
         in case peep cm rs s1 of
              Inl e \<Rightarrow> Inl e
            | Inr s2 \<Rightarrow>
                (let h = nextHandle s2 in
                 Inr (s2\<lparr>timers := (timers s2)(h \<mapsto> Interval c),
                         nextHandle := h + 1,
                         gameTimerRef := Some h\<rparr>))))"

subsection \<open>Whack handler\<close>

text \<open>\<^verbatim>\<open>handleWhack(id, isTrusted)\<close>: \<^verbatim>\<open>setScore((s) => s + 1)\<close> runs once for every
  mole that the updater of \<^verbatim>\<open>setMoles\<close> finds \<^verbatim>\<open>UP\<close> under that id.\<close>

definition handleWhack :: "int \<Rightarrow> bool \<Rightarrow> state \<Rightarrow> state" where
  "handleWhack i isTrusted s =
     (if \<not> isTrusted \<or> \<not> isPlayingRef s then s
      else s\<lparr>moles := map (\<lambda>m. if id' m = i \<and> status m = UP then m\<lparr>status := WHACKED\<rparr> else m) (moles s),
             score := score s + int (length (filter (\<lambda>m. id' m = i \<and> status m = UP) (moles s)))\<rparr>)"

subsection \<open>Events\<close>

text \<open>
  What can happen to the mounted component: a click on Start or Play Again, a whack
  reported by a mole, the armed timeout or interval of a handle firing. A timeout is
  one-shot: it leaves the table when it fires. A handle that is not armed does not
  fire, and the state stays as it is.
\<close>

datatype event =
  ClickStart "real list"
| Whack int bool
| TimeoutFires nat "real list"
| IntervalFires nat

fun isClickStart :: "event \<Rightarrow> bool" where
  "isClickStart (ClickStart rs) = True"
| "isClickStart e = False"

definition step :: "state \<Rightarrow> event \<Rightarrow> error + state" where
  "step s e =
     (case e of
        ClickStart rs \<Rightarrow> startGame rs s
      | Whack i isTrusted \<Rightarrow> Inr (handleWhack i isTrusted s)
      | TimeoutFires h rs \<Rightarrow>
          (case timers s h of
             Some (Timeout holeIdx time cm) \<Rightarrow> peepTimeout holeIdx cm rs (s\<lparr>timers := (timers s)(h := None)\<rparr>)
           | _ \<Rightarrow> Inr s)
      | IntervalFires h \<Rightarrow>
          (case timers s h of
             Some (Interval c) \<Rightarrow> Inr (gameTimerTick c s)
           | _ \<Rightarrow> Inr s))"

fun run :: "state \<Rightarrow> event list \<Rightarrow> error + state" where
  "run s [] = Inr s"
| "run s (e # es) = (case step s e of Inl err \<Rightarrow> Inl err | Inr s' \<Rightarrow> run s' es)"

text \<open>The holes whose mole is up, in the order of the board.\<close>

definition upSlots :: "state \<Rightarrow> int list" where
  "upSlots s = map id' (filter (\<lambda>m. status m = UP) (moles s))"

text \<open>The statuses of the moles of hole \<open>i\<close>, in the order of the board.\<close>

definition statusAt :: "state \<Rightarrow> int \<Rightarrow> MoleStatus list" where
  "statusAt s i = map status (filter (\<lambda>m. id' m = i) (moles s))"

subsection \<open>Invariant of the reachable states\<close>

text \<open>A board has one mole per hole, in the order of the holes.\<close>

definition board_ok :: "MoleData list \<Rightarrow> bool" where
  "board_ok ms \<longleftrightarrow> map id' ms = map int [0..<HOLE_COUNT]"

text \<open>
  Between two callbacks: the ref and the state agree on whether the game is played;
  while it is, exactly the timeout of \<^verbatim>\<open>peepTimerRef\<close> and the interval of
  \<^verbatim>\<open>gameTimerRef\<close> are armed, the timeout is for the last hole drawn, which is a
  hole of the board, and every mole that is not idle sits in that hole; while it is not, no timer is armed and every
  mole is idle.
\<close>

definition armed :: "state \<Rightarrow> nat \<Rightarrow> nat \<Rightarrow> int \<Rightarrow> MoleData list \<Rightarrow> int \<Rightarrow> bool" where
  "armed s hp hg time cm c \<longleftrightarrow>
     hp \<noteq> hg \<and> 0 < hp \<and> 0 < hg \<and> hp < nextHandle s \<and> hg < nextHandle s \<and>
     peepTimerRef s = Some hp \<and> gameTimerRef s = Some hg \<and>
     dom (timers s) = {hp, hg} \<and>
     timers s hp = Some (Timeout (lastHoleRef s) time cm) \<and>
     timers s hg = Some (Interval c) \<and>
     board_ok cm"

definition game_inv :: "state \<Rightarrow> bool" where
  "game_inv s \<longleftrightarrow>
     board_ok (moles s) \<and> isPlaying s = isPlayingRef s \<and> 0 < nextHandle s \<and>
     (if isPlayingRef s then
        (\<exists>hp hg time cm c. armed s hp hg time cm c) \<and>
        lastHoleRef s \<in> id' ` set (moles s) \<and>
        (\<forall>m \<in> set (moles s). status m \<noteq> IDLE \<longrightarrow> id' m = lastHoleRef s)
      else timers s = Map.empty \<and> (\<forall>m \<in> set (moles s). status m = IDLE))"

subsection \<open>Sample runs\<close>

text \<open>
  A first game: the first draw gives the delay, the second puts the mole of hole 0 up
  (timeout 1), the interval is handle 2; the player whacks the mole, and thirty ticks
  of the interval end the game.
\<close>

definition firstRound :: "event list" where
  "firstRound = [ClickStart [1 / 2, 0], Whack 0 True] @ replicate 30 (IntervalFires 2)"

text \<open>The state while that game is played, before the whack.\<close>

definition playing :: state where
  "playing = projr (run initialState [ClickStart [1 / 2, 0]])"

section \<open>The random helpers\<close>

lemma randomHole_returns:
  "randomHole cm rs s = Inr (hole, rs', s') \<Longrightarrow>
     hole \<noteq> lastHoleRef s \<and> s' = s\<lparr>lastHoleRef := hole\<rparr> \<and> hole \<in> id' ` set cm"
proof (induction rs)
  case Nil
  then show ?case by simp
next
  case (Cons r rs)
  let ?idx = "\<lfloor>r * real (length cm)\<rfloor>"
  from Cons.prems have inrange: "\<not> (?idx < 0 \<or> int (length cm) \<le> ?idx)"
    by (auto simp: Let_def split: if_splits)
  then have mem: "cm ! nat ?idx \<in> set cm"
    by (intro nth_mem) linarith
  show ?case
  proof (cases "id' (cm ! nat ?idx) = lastHoleRef s")
    case True
    with Cons.prems inrange have "randomHole cm rs s = Inr (hole, rs', s')"
      by (simp add: Let_def)
    then show ?thesis by (rule Cons.IH)
  next
    case False
    with Cons.prems inrange mem show ?thesis
      by (auto simp: Let_def)
  qed
qed

section \<open>What the callbacks do to the state\<close>

lemma peep_running:
  assumes "isPlayingRef s" and "peep cm rs s = Inr s'"
  shows "\<exists>hole time. hole \<noteq> lastHoleRef s \<and> hole \<in> id' ` set cm \<and>
           s' = s\<lparr>lastHoleRef := hole,
                  moles := map (\<lambda>m. if id' m = hole then m\<lparr>status := UP\<rparr> else m) (moles s),
                  timers := (timers s)(nextHandle s \<mapsto> Timeout hole time cm),
                  nextHandle := nextHandle s + 1,
                  peepTimerRef := Some (nextHandle s)\<rparr>"
proof (cases rs)
  case Nil
  with assms show ?thesis by (simp add: peep_def)
next
  case (Cons r rs')
  with assms obtain hole rs'' s1 where rh: "randomHole cm rs' s = Inr (hole, rs'', s1)"
    and s': "s' = s1\<lparr>moles := map (\<lambda>m. if id' m = hole then m\<lparr>status := UP\<rparr> else m) (moles s1),
                        timers := (timers s1)(nextHandle s1 \<mapsto> Timeout hole (randomTime MIN_PEEP_TIME MAX_PEEP_TIME r) cm),
                        nextHandle := nextHandle s1 + 1,
                        peepTimerRef := Some (nextHandle s1)\<rparr>"
    by (auto simp: peep_def Let_def split: sum.splits prod.splits)
  from randomHole_returns [OF rh] s' show ?thesis by auto
qed

lemma board_ok_freshMoles: "board_ok freshMoles"
  unfolding board_ok_def freshMoles_def by (simp add: comp_def)

lemma freshMoles_idle: "m \<in> set freshMoles \<Longrightarrow> status m = IDLE"
  unfolding freshMoles_def by auto

lemma board_ok_map:
  "(\<And>m. id' (f m) = id' m) \<Longrightarrow> board_ok ms \<Longrightarrow> board_ok (map f ms)"
  unfolding board_ok_def by (simp add: comp_def)

lemma game_inv_initialState: "game_inv initialState"
  by (simp add: game_inv_def initialState_def board_ok_freshMoles freshMoles_idle)



lemma game_inv_board: "game_inv s \<Longrightarrow> board_ok (moles s)"
  by (simp add: game_inv_def)

lemma game_inv_armed:
  "game_inv s \<Longrightarrow> isPlayingRef s \<Longrightarrow> \<exists>hp hg time cm c. armed s hp hg time cm c"
  by (simp add: game_inv_def)

lemma game_inv_hole:
  "game_inv s \<Longrightarrow> isPlayingRef s \<Longrightarrow> m \<in> set (moles s) \<Longrightarrow> status m \<noteq> IDLE \<Longrightarrow> id' m = lastHoleRef s"
  by (simp add: game_inv_def)

lemma game_inv_lastHole:
  "game_inv s \<Longrightarrow> isPlayingRef s \<Longrightarrow> lastHoleRef s \<in> id' ` set (moles s)"
  by (simp add: game_inv_def)

lemma board_ok_ids: "board_ok ms \<Longrightarrow> id' ` set ms = int ` {0..<HOLE_COUNT}"
proof -
  assume "board_ok ms"
  then have "set (map id' ms) = set (map int [0..<HOLE_COUNT])" by (simp only: board_ok_def)
  then show ?thesis by simp
qed

lemma game_inv_stopped:
  "game_inv s \<Longrightarrow> \<not> isPlayingRef s \<Longrightarrow> timers s = Map.empty \<and> (\<forall>m \<in> set (moles s). status m = IDLE)"
  by (simp add: game_inv_def)

lemma game_inv_refs: "game_inv s \<Longrightarrow> isPlaying s = isPlayingRef s \<and> 0 < nextHandle s"
  by (simp add: game_inv_def)

lemma game_inv_runningI:
  assumes "board_ok (moles s)" "isPlaying s" "isPlayingRef s" "0 < nextHandle s"
    "armed s hp hg time cm c"
    "\<And>m. m \<in> set (moles s) \<Longrightarrow> status m \<noteq> IDLE \<Longrightarrow> id' m = lastHoleRef s"
    "lastHoleRef s \<in> id' ` set (moles s)"
  shows "game_inv s"
  unfolding game_inv_def using assms by simp blast

lemma game_inv_handleWhack:
  assumes g: "game_inv s"
  shows "game_inv (handleWhack i t s)"
proof (cases "\<not> t \<or> \<not> isPlayingRef s")
  case True
  with assms show ?thesis by (simp add: handleWhack_def)
next
  case False
  let ?f = "\<lambda>m. if id' m = i \<and> status m = UP then m\<lparr>status := WHACKED\<rparr> else m"
  let ?s = "handleWhack i t s"
  from False have run: "isPlayingRef s" by simp
  from game_inv_board [OF g] have b: "board_ok (map ?f (moles s))"
    by (rule board_ok_map [rotated]) simp
  from game_inv_armed [OF g run] obtain hp hg time cm c where "armed s hp hg time cm c"
    by blast
  then have a: "armed ?s hp hg time cm c"
    using False by (simp add: armed_def handleWhack_def)
  have h: "id' m = lastHoleRef ?s" if "m \<in> set (moles ?s)" "status m \<noteq> IDLE" for m
  proof -
    from that False obtain m0 where m0: "m0 \<in> set (moles s)" "m = ?f m0"
      by (auto simp: handleWhack_def)
    with that have "status m0 \<noteq> IDLE" by (auto split: if_splits)
    from game_inv_hole [OF g run m0(1) this] m0 False show ?thesis
      by (simp add: handleWhack_def)
  qed
  show ?thesis
  proof (rule game_inv_runningI [OF _ _ _ _ a h])
    show "board_ok (moles ?s)" using b False by (simp add: handleWhack_def)
    show "isPlaying ?s" using game_inv_refs [OF g] False by (simp add: handleWhack_def)
    show "isPlayingRef ?s" using False by (simp add: handleWhack_def)
    show "0 < nextHandle ?s" using game_inv_refs [OF g] False by (simp add: handleWhack_def)
    from game_inv_lastHole [OF g run] board_ok_ids [OF game_inv_board [OF g]] board_ok_ids [OF b]
    show "lastHoleRef ?s \<in> id' ` set (moles ?s)" using False by (simp add: handleWhack_def)
  qed
qed


lemma game_inv_stoppedI:
  assumes "board_ok (moles s)" "\<not> isPlaying s" "\<not> isPlayingRef s" "0 < nextHandle s"
    "timers s = Map.empty" "\<And>m. m \<in> set (moles s) \<Longrightarrow> status m = IDLE"
  shows "game_inv s"
  unfolding game_inv_def using assms by simp

lemma clearTimer_armed:
  assumes "armed s hp hg time cm c"
  shows "clearTimer (peepTimerRef s) (clearTimer (gameTimerRef s) (timers s)) = Map.empty"
proof -
  from assms have "dom (clearTimer (peepTimerRef s) (clearTimer (gameTimerRef s) (timers s))) = {}"
    by (auto simp: armed_def)
  then show ?thesis by simp
qed

lemma clearTimer_empty: "clearTimer r Map.empty = Map.empty"
  by (cases r) simp_all

lemma game_inv_endGame:
  assumes g: "game_inv s"
  shows "game_inv (endGame c s)"
proof (rule game_inv_stoppedI)
  from game_inv_board [OF g] have "board_ok (map (\<lambda>m. m\<lparr>status := IDLE\<rparr>) (moles s))"
    by (rule board_ok_map [rotated]) simp
  then show "board_ok (moles (endGame c s))" by (simp add: endGame_def)
  show "\<not> isPlaying (endGame c s)" "\<not> isPlayingRef (endGame c s)"
    by (simp_all add: endGame_def)
  show "0 < nextHandle (endGame c s)" using game_inv_refs [OF g] by (simp add: endGame_def)
  show "timers (endGame c s) = Map.empty"
  proof (cases "isPlayingRef s")
    case True
    from game_inv_armed [OF g True] obtain hp hg time cm c' where "armed s hp hg time cm c'"
      by blast
    from clearTimer_armed [OF this] show ?thesis by (simp add: endGame_def)
  next
    case False
    with game_inv_stopped [OF g] show ?thesis by (simp add: endGame_def clearTimer_empty)
  qed
  show "status m = IDLE" if "m \<in> set (moles (endGame c s))" for m
    using that by (auto simp: endGame_def)
qed

lemma armed_timeLeft: "armed (s\<lparr>timeLeft := t\<rparr>) = armed s"
  by (simp add: armed_def fun_eq_iff)

lemma game_inv_timeLeft: "game_inv s \<Longrightarrow> game_inv (s\<lparr>timeLeft := t\<rparr>)"
  by (simp add: game_inv_def armed_timeLeft)

lemma game_inv_gameTimerTick: "game_inv s \<Longrightarrow> game_inv (gameTimerTick c s)"
  by (simp add: gameTimerTick_def game_inv_timeLeft game_inv_endGame)


lemma startGame_result:
  assumes "\<not> isPlaying s" and "startGame rs s = Inr s'"
  shows "\<exists>hole time. hole \<noteq> lastHoleRef s \<and> hole \<in> id' ` set (moles s) \<and>
           s' = s\<lparr>score := 0, timeLeft := GAME_DURATION, isPlaying := True, isPlayingRef := True,
                  lastHoleRef := hole,
                  moles := map (\<lambda>m. if id' m = hole then m\<lparr>status := UP\<rparr> else m) freshMoles,
                  timers := (timers s)(nextHandle s \<mapsto> Timeout hole time (moles s),
                                       nextHandle s + 1 \<mapsto> Interval (score s)),
                  nextHandle := nextHandle s + 2,
                  peepTimerRef := Some (nextHandle s),
                  gameTimerRef := Some (nextHandle s + 1)\<rparr>"
proof -
  let ?s1 = "s\<lparr>score := 0, timeLeft := GAME_DURATION, isPlaying := True,
                isPlayingRef := True, moles := freshMoles\<rparr>"
  from assms obtain s2 where p: "peep (moles s) rs ?s1 = Inr s2"
    and s': "s' = s2\<lparr>timers := (timers s2)(nextHandle s2 \<mapsto> Interval (score s)),
                     nextHandle := nextHandle s2 + 1,
                     gameTimerRef := Some (nextHandle s2)\<rparr>"
    by (auto simp: startGame_def Let_def split: sum.splits)
  have "isPlayingRef ?s1" by simp
  from peep_running [OF this p] obtain hole time where
    h: "hole \<noteq> lastHoleRef ?s1" "hole \<in> id' ` set (moles s)"
    and s2: "s2 = ?s1\<lparr>lastHoleRef := hole,
                  moles := map (\<lambda>m. if id' m = hole then m\<lparr>status := UP\<rparr> else m) (moles ?s1),
                  timers := (timers ?s1)(nextHandle ?s1 \<mapsto> Timeout hole time (moles s)),
                  nextHandle := nextHandle ?s1 + 1,
                  peepTimerRef := Some (nextHandle ?s1)\<rparr>"
    by blast
  from h have "hole \<noteq> lastHoleRef s" by simp
  moreover from s' s2 have "s' = s\<lparr>score := 0, timeLeft := GAME_DURATION, isPlaying := True, isPlayingRef := True,
                  lastHoleRef := hole,
                  moles := map (\<lambda>m. if id' m = hole then m\<lparr>status := UP\<rparr> else m) freshMoles,
                  timers := (timers s)(nextHandle s \<mapsto> Timeout hole time (moles s),
                                       nextHandle s + 1 \<mapsto> Interval (score s)),
                  nextHandle := nextHandle s + 2,
                  peepTimerRef := Some (nextHandle s),
                  gameTimerRef := Some (nextHandle s + 1)\<rparr>"
    by simp
  ultimately show ?thesis using h(2) by blast
qed

lemma peepTimeout_result:
  assumes "isPlayingRef s" and "peepTimeout holeIdx cm rs s = Inr s'"
  shows "\<exists>hole time. hole \<noteq> lastHoleRef s \<and> hole \<in> id' ` set cm \<and>
           s' = s\<lparr>lastHoleRef := hole,
                  moles := map (\<lambda>m. if id' m = hole then m\<lparr>status := UP\<rparr> else m)
                             (map (\<lambda>m. if id' m = holeIdx then m\<lparr>status := IDLE\<rparr> else m) (moles s)),
                  timers := (timers s)(nextHandle s \<mapsto> Timeout hole time cm),
                  nextHandle := nextHandle s + 1,
                  peepTimerRef := Some (nextHandle s)\<rparr>"
proof -
  let ?s1 = "s\<lparr>moles := map (\<lambda>m. if id' m = holeIdx then m\<lparr>status := IDLE\<rparr> else m) (moles s)\<rparr>"
  from assms have p: "peep cm rs ?s1 = Inr s'" and r: "isPlayingRef ?s1"
    by (simp_all add: peepTimeout_def Let_def)
  from peep_running [OF r p] show ?thesis by simp
qed

lemma peepTimeout_stopped:
  "\<not> isPlayingRef s \<Longrightarrow> peepTimeout holeIdx cm rs s =
     Inr (s\<lparr>moles := map (\<lambda>m. if id' m = holeIdx then m\<lparr>status := IDLE\<rparr> else m) (moles s)\<rparr>)"
  by (simp add: peepTimeout_def Let_def)


lemma game_inv_startGame:
  assumes g: "game_inv s" and st: "startGame rs s = Inr s'"
  shows "game_inv s'"
proof (cases "isPlaying s")
  case True
  with g st show ?thesis by (simp add: startGame_def)
next
  case False
  with game_inv_refs [OF g] have nr: "\<not> isPlayingRef s" and n0: "0 < nextHandle s" by simp_all
  from game_inv_stopped [OF g nr] have te: "timers s = Map.empty" by simp
  from startGame_result [OF False st] obtain hole time where
    hin: "hole \<in> id' ` set (moles s)" and
    s': "s' = s\<lparr>score := 0, timeLeft := GAME_DURATION, isPlaying := True, isPlayingRef := True,
                  lastHoleRef := hole,
                  moles := map (\<lambda>m. if id' m = hole then m\<lparr>status := UP\<rparr> else m) freshMoles,
                  timers := (timers s)(nextHandle s \<mapsto> Timeout hole time (moles s),
                                       nextHandle s + 1 \<mapsto> Interval (score s)),
                  nextHandle := nextHandle s + 2,
                  peepTimerRef := Some (nextHandle s),
                  gameTimerRef := Some (nextHandle s + 1)\<rparr>"
    by blast
  have a: "armed s' (nextHandle s) (nextHandle s + 1) time (moles s) (score s)"
    using n0 te game_inv_board [OF g] by (auto simp: armed_def s')
  have b: "board_ok (moles s')"
    unfolding s' using board_ok_map [OF _ board_ok_freshMoles,
        of "\<lambda>m. if id' m = hole then m\<lparr>status := UP\<rparr> else m"]
    by simp
  have h: "id' m = lastHoleRef s'" if "m \<in> set (moles s')" "status m \<noteq> IDLE" for m
    using that freshMoles_idle by (auto simp: s' split: if_splits)
  from hin have "lastHoleRef s' \<in> id' ` set (moles s)"
    by (simp add: s')
  with board_ok_ids [OF game_inv_board [OF g]] board_ok_ids [OF b]
  have l: "lastHoleRef s' \<in> id' ` set (moles s')" by simp
  show ?thesis
    by (rule game_inv_runningI [OF b _ _ _ a h l]) (simp_all add: s')
qed

lemma game_inv_peepTimeout:
  assumes g: "game_inv s" and t: "timers s h = Some (Timeout holeIdx time cm)"
    and st: "peepTimeout holeIdx cm rs (s\<lparr>timers := (timers s)(h := None)\<rparr>) = Inr s'"
  shows "game_inv s' \<and> holeIdx = lastHoleRef s \<and> lastHoleRef s' \<noteq> holeIdx \<and>
         isPlayingRef s \<and> isPlayingRef s' \<and> score s' = score s"
proof -
  let ?s0 = "s\<lparr>timers := (timers s)(h := None)\<rparr>"
  have run: "isPlayingRef s"
  proof (rule ccontr)
    assume "\<not> isPlayingRef s"
    from game_inv_stopped [OF g this] t show False by simp
  qed
  from game_inv_armed [OF g run] obtain hp hg t0 cm0 c where a: "armed s hp hg t0 cm0 c"
    by blast
  from t have "h \<in> dom (timers s)" by blast
  with a t have hp: "h = hp" by (auto simp: armed_def)
  with a t have eq: "holeIdx = lastHoleRef s" "cm = cm0" by (simp_all add: armed_def)
  from run have "isPlayingRef ?s0" by simp
  from peepTimeout_result [OF this st] obtain hole time' where
    ne: "hole \<noteq> lastHoleRef s" and hin: "hole \<in> id' ` set cm"
    and s': "s' = ?s0\<lparr>lastHoleRef := hole,
                  moles := map (\<lambda>m. if id' m = hole then m\<lparr>status := UP\<rparr> else m)
                             (map (\<lambda>m. if id' m = holeIdx then m\<lparr>status := IDLE\<rparr> else m) (moles ?s0)),
                  timers := (timers ?s0)(nextHandle ?s0 \<mapsto> Timeout hole time' cm),
                  nextHandle := nextHandle ?s0 + 1,
                  peepTimerRef := Some (nextHandle ?s0)\<rparr>"
    by auto
  have a': "armed s' (nextHandle s) hg time' cm c"
    using a hp eq by (auto simp: armed_def s')
  have "board_ok (map (\<lambda>m. if id' m = holeIdx then m\<lparr>status := IDLE\<rparr> else m) (moles s))"
    by (rule board_ok_map [OF _ game_inv_board [OF g]]) simp
  then have "board_ok (map (\<lambda>m. if id' m = hole then m\<lparr>status := UP\<rparr> else m)
                 (map (\<lambda>m. if id' m = holeIdx then m\<lparr>status := IDLE\<rparr> else m) (moles s)))"
    by (rule board_ok_map [rotated]) simp
  then have b: "board_ok (moles s')" by (simp add: s')
  have h: "id' m = lastHoleRef s'" if "m \<in> set (moles s')" "status m \<noteq> IDLE" for m
  proof -
    from that obtain m0 where m0: "m0 \<in> set (moles s)"
      and m: "m = (if id' (if id' m0 = holeIdx then m0\<lparr>status := IDLE\<rparr> else m0) = hole
                   then (if id' m0 = holeIdx then m0\<lparr>status := IDLE\<rparr> else m0)\<lparr>status := UP\<rparr>
                   else (if id' m0 = holeIdx then m0\<lparr>status := IDLE\<rparr> else m0))"
      by (auto simp: s')
    show ?thesis
    proof (cases "id' m0 = hole")
      case True
      with m show ?thesis by (simp add: s' split: if_splits)
    next
      case False
      with m that(2) have "status m0 \<noteq> IDLE" "id' m0 \<noteq> holeIdx"
        by (auto split: if_splits)
      with game_inv_hole [OF g run m0] eq show ?thesis by simp
    qed
  qed
  from a eq have "board_ok cm" by (simp add: armed_def)
  from hin board_ok_ids [OF this] board_ok_ids [OF b]
  have l: "lastHoleRef s' \<in> id' ` set (moles s')" by (simp add: s')
  have "game_inv s'"
    by (rule game_inv_runningI [OF b _ _ _ a' h l]) (use game_inv_refs [OF g] run in \<open>simp_all add: s'\<close>)
  with eq ne run show ?thesis by (simp add: s')
qed


lemma game_inv_step:
  assumes g: "game_inv s" and st: "step s e = Inr s'"
  shows "game_inv s'"
proof (cases e)
  case (ClickStart rs)
  with st have "startGame rs s = Inr s'" by (simp add: step_def)
  then show ?thesis by (rule game_inv_startGame [OF g])
next
  case (Whack i t)
  with st g show ?thesis by (auto simp: step_def game_inv_handleWhack)
next
  case (TimeoutFires h rs)
  show ?thesis
  proof (cases "timers s h")
    case None
    with st g TimeoutFires show ?thesis by (simp add: step_def)
  next
    case (Some tm)
    show ?thesis
    proof (cases tm)
      case (Timeout holeIdx time cm)
      with st Some TimeoutFires
      have "peepTimeout holeIdx cm rs (s\<lparr>timers := (timers s)(h := None)\<rparr>) = Inr s'"
        by (simp add: step_def)
      from game_inv_peepTimeout [OF g _ this] Some Timeout show ?thesis by simp
    next
      case (Interval c)
      with st g Some TimeoutFires show ?thesis by (simp add: step_def)
    qed
  qed
next
  case (IntervalFires h)
  with st g show ?thesis
    by (auto simp: step_def game_inv_gameTimerTick split: option.splits timer.splits)
qed

lemma game_inv_run: "game_inv s \<Longrightarrow> run s es = Inr s' \<Longrightarrow> game_inv s'"
proof (induction es arbitrary: s)
  case Nil
  then show ?case by simp
next
  case (Cons e es)
  from Cons.prems(2) obtain s1 where s1: "step s e = Inr s1" "run s1 es = Inr s'"
    by (auto split: sum.splits)
  from game_inv_step [OF Cons.prems(1) s1(1)] s1(2) show ?case by (rule Cons.IH)
qed

lemma reachable_inv: "run initialState es = Inr s \<Longrightarrow> game_inv s"
  by (rule game_inv_run [OF game_inv_initialState])

lemma step_stopped:
  assumes "game_inv s" "\<not> isPlayingRef s" "\<not> isClickStart e"
  shows "step s e = Inr s"
proof -
  from game_inv_stopped [OF assms(1,2)] have "timers s = Map.empty" by simp
  with assms(2,3) show ?thesis
    by (cases e) (simp_all add: step_def handleWhack_def)
qed

lemma run_stopped:
  assumes "game_inv s" "\<not> isPlayingRef s" "\<forall>e \<in> set es. \<not> isClickStart e"
  shows "run s es = Inr s"
  using assms(3) by (induction es) (simp_all add: step_stopped [OF assms(1,2)])

lemma clearTimer_idem: "clearTimer r (clearTimer r ts) = clearTimer r ts"
  by (cases r) simp_all

lemma clearTimer_commute: "clearTimer r (clearTimer q ts) = clearTimer q (clearTimer r ts)"
  by (cases r; cases q) (auto simp: fun_upd_twist)

lemma Math_round_nearest: "\<bar>real_of_int (Math_round x) - x\<bar> \<le> 1 / 2"
  unfolding Math_round_def by linarith

section \<open>Auxiliary facts for the claims\<close>

lemma filter_unique:
  "distinct (map f xs) \<Longrightarrow> a \<in> f ` set xs \<Longrightarrow>
     \<exists>x. x \<in> set xs \<and> f x = a \<and> filter (\<lambda>y. f y = a) xs = [x]"
proof (induction xs)
  case Nil
  then show ?case by simp
next
  case (Cons x xs)
  show ?case
  proof (cases "f x = a")
    case True
    from Cons.prems(1) have "f x \<notin> f ` set xs" by simp
    with True have "\<forall>y \<in> set xs. f y \<noteq> a" by (metis imageI)
    then have "filter (\<lambda>y. f y = a) xs = []" by (simp add: filter_empty_conv)
    with True show ?thesis by simp
  next
    case False
    with Cons.prems have "distinct (map f xs)" "a \<in> f ` set xs" by auto
    from Cons.IH [OF this] False show ?thesis by auto
  qed
qed

lemma filter_le1:
  "distinct (map f xs) \<Longrightarrow> (\<And>x. x \<in> set xs \<Longrightarrow> P x \<Longrightarrow> f x = a) \<Longrightarrow> length (filter P xs) \<le> 1"
proof (induction xs)
  case Nil
  then show ?case by simp
next
  case (Cons x xs)
  show ?case
  proof (cases "P x")
    case True
    with Cons.prems(2) have fx: "f x = a" by simp
    have "\<not> P y" if "y \<in> set xs" for y
    proof
      assume "P y"
      with Cons.prems(2) that have "f y = a" by simp
      moreover from Cons.prems(1) have "f x \<notin> f ` set xs" by simp
      ultimately show False using fx that by (metis imageI)
    qed
    then have "filter P xs = []" by (simp add: filter_empty_conv)
    with True show ?thesis by simp
  next
    case False
    with Cons show ?thesis by simp
  qed
qed

lemma board_ok_distinct: "board_ok ms \<Longrightarrow> distinct (map id' ms)"
  by (simp add: board_ok_def distinct_map)

lemma filter_id_map:
  "(\<And>m. id' (f m) = id' m) \<Longrightarrow>
     filter (\<lambda>m. id' m = j) (map f ms) = map f (filter (\<lambda>m. id' m = j) ms)"
  by (simp add: filter_map comp_def)

lemma handleWhack_up:
  assumes run: "isPlayingRef s" and up: "statusAt s i = [UP]"
  shows "score (handleWhack i True s) = score s + 1"
    and "statusAt (handleWhack i True s) i = [WHACKED]"
    and "j \<noteq> i \<Longrightarrow> statusAt (handleWhack i True s) j = statusAt s j"
proof -
  let ?f = "\<lambda>m. if id' m = i \<and> status m = UP then m\<lparr>status := WHACKED\<rparr> else m"
  have idf: "id' (?f m) = id' m" for m by simp
  from up obtain m where m: "filter (\<lambda>m. id' m = i) (moles s) = [m]" "status m = UP"
    by (auto simp: statusAt_def)
  have "filter (\<lambda>m. id' m = i \<and> status m = UP) (moles s)
        = filter (\<lambda>m. status m = UP) (filter (\<lambda>m. id' m = i) (moles s))"
    by simp
  with m have "filter (\<lambda>m. id' m = i \<and> status m = UP) (moles s) = [m]" by simp
  with run show "score (handleWhack i True s) = score s + 1"
    by (simp add: handleWhack_def)
  from m have "m \<in> set (filter (\<lambda>m. id' m = i) (moles s))" by simp
  then have "id' m = i" by simp
  with m run show "statusAt (handleWhack i True s) i = [WHACKED]"
    by (simp add: statusAt_def handleWhack_def filter_id_map [of ?f, OF idf])
  show "statusAt (handleWhack i True s) j = statusAt s j" if "j \<noteq> i"
  proof -
    have "map ?f (filter (\<lambda>m. id' m = j) (moles s)) = filter (\<lambda>m. id' m = j) (moles s)"
      by (rule map_idI) (use that in auto)
    with run show ?thesis
      by (simp add: statusAt_def handleWhack_def filter_id_map [of ?f, OF idf])
  qed
qed

lemma handleWhack_score:
  assumes g: "game_inv s"
  shows "score (handleWhack j t s) = score s \<or>
         (score (handleWhack j t s) = score s + 1 \<and> isPlaying s \<and> t \<and> statusAt s j = [UP])"
proof (cases "\<not> t \<or> \<not> isPlayingRef s")
  case True
  then show ?thesis by (simp add: handleWhack_def)
next
  case False
  let ?hit = "filter (\<lambda>m. id' m = j \<and> status m = UP) (moles s)"
  from False have sc: "score (handleWhack j t s) = score s + int (length ?hit)"
    by (simp add: handleWhack_def)
  have d: "distinct (map id' (moles s))"
    by (rule board_ok_distinct [OF game_inv_board [OF g]])
  have "length ?hit \<le> 1" by (rule filter_le1 [OF d, of _ j]) simp
  show ?thesis
  proof (cases "?hit = []")
    case True
    with sc show ?thesis by simp
  next
    case ne: False
    with \<open>length ?hit \<le> 1\<close> have l: "length ?hit = 1"
      by (cases ?hit) simp_all
    from ne obtain m where m: "m \<in> set (moles s)" "id' m = j" "status m = UP"
      by (auto simp: filter_empty_conv)
    then have "j \<in> id' ` set (moles s)" by blast
    from filter_unique [OF d this] obtain x where
      x: "filter (\<lambda>y. id' y = j) (moles s) = [x]" by blast
    from m have "m \<in> set (filter (\<lambda>y. id' y = j) (moles s))" by simp
    with x have "x = m" by simp
    with x m have "statusAt s j = [UP]" by (simp add: statusAt_def)
    with sc l False game_inv_refs [OF g] show ?thesis by simp
  qed
qed

lemma handleWhack_timers:
  "timers (handleWhack i t s) = timers s \<and> peepTimerRef (handleWhack i t s) = peepTimerRef s"
  by (simp add: handleWhack_def)

lemma stopped_quiet:
  assumes g: "game_inv s" and n: "\<not> isPlayingRef s" and q: "\<forall>e \<in> set es. \<not> isClickStart e"
  shows "timers s = Map.empty" and "run s es = Inr s" and "peepTimeout holeIdx cm rs s = Inr s"
    and "moles (gameTimerTick c s) = moles s" and "score (gameTimerTick c s) = score s"
proof -
  from game_inv_stopped [OF g n] have t: "timers s = Map.empty"
    and idle: "\<forall>m \<in> set (moles s). status m = IDLE" by simp_all
  show "timers s = Map.empty" by (rule t)
  show "run s es = Inr s" by (rule run_stopped [OF g n q])
  have "map (\<lambda>m. if id' m = holeIdx then m\<lparr>status := IDLE\<rparr> else m) (moles s) = moles s"
    by (rule map_idI) (use idle in auto)
  with n show "peepTimeout holeIdx cm rs s = Inr s"
    by (simp add: peepTimeout_stopped)
  have "map (\<lambda>m. m\<lparr>status := IDLE\<rparr>) (moles s) = moles s"
    by (rule map_idI) (use idle in auto)
  then show "moles (gameTimerTick c s) = moles s"
    by (simp add: gameTimerTick_def endGame_def)
  show "score (gameTimerTick c s) = score s"
    by (simp add: gameTimerTick_def endGame_def)
qed

text \<open>The definitions that evaluate a run on concrete events.\<close>

lemmas run_defs = step_def startGame_def peep_def peepTimeout_def endGame_def gameTimerTick_def handleWhack_def
  initialState_def freshMoles_def HOLE_COUNT_def GAME_DURATION_def MIN_PEEP_TIME_def MAX_PEEP_TIME_def
  randomTime_def Math_round_def upSlots_def statusAt_def Let_def

lemma hole_cases: "k < HOLE_COUNT \<Longrightarrow> k = 0 \<or> k = 1 \<or> k = 2 \<or> k = 3 \<or> k = 4 \<or> k = 5"
  unfolding HOLE_COUNT_def by arith

lemma upSlots_fresh:
  assumes "k < HOLE_COUNT"
  shows "map id' (filter (\<lambda>m. status m = UP)
           (map (\<lambda>m. if id' m = int k then m\<lparr>status := UP\<rparr> else m) freshMoles)) = [int k]"
  using hole_cases [OF assms]
  by (elim disjE) (simp_all add: freshMoles_def HOLE_COUNT_def upt_rec)

lemma first_hole_any:
  assumes "k < HOLE_COUNT"
  shows "\<exists>rs s'. startGame rs initialState = Inr s' \<and> upSlots s' = [int k]"
proof (intro exI conjI)
  let ?s = "projr (startGame [0, real k / 6] initialState)"
  from hole_cases [OF assms]
  show "startGame [0, real k / 6] initialState = Inr ?s"
    by (elim disjE)
      (simp_all add: startGame_def peep_def freshMoles_def HOLE_COUNT_def initialState_def
        Let_def upt_rec)
  from hole_cases [OF assms]
  show "upSlots ?s = [int k]"
    by (elim disjE)
      (simp_all add: startGame_def peep_def freshMoles_def HOLE_COUNT_def initialState_def
        upSlots_def Let_def upt_rec)
qed

lemma startGame_shows:
  assumes g: "game_inv s" and n: "\<not> isPlaying s" and st: "startGame rs s = Inr s'"
  shows "upSlots s' = [lastHoleRef s'] \<and> lastHoleRef s' \<noteq> lastHoleRef s"
proof -
  from startGame_result [OF n st] obtain hole time where
    ne: "hole \<noteq> lastHoleRef s" and hin: "hole \<in> id' ` set (moles s)"
    and s': "s' = s\<lparr>score := 0, timeLeft := GAME_DURATION, isPlaying := True, isPlayingRef := True,
                  lastHoleRef := hole,
                  moles := map (\<lambda>m. if id' m = hole then m\<lparr>status := UP\<rparr> else m) freshMoles,
                  timers := (timers s)(nextHandle s \<mapsto> Timeout hole time (moles s),
                                       nextHandle s + 1 \<mapsto> Interval (score s)),
                  nextHandle := nextHandle s + 2,
                  peepTimerRef := Some (nextHandle s),
                  gameTimerRef := Some (nextHandle s + 1)\<rparr>"
    by blast
  have l: "lastHoleRef s' = hole"
    and m: "moles s' = map (\<lambda>m. if id' m = hole then m\<lparr>status := UP\<rparr> else m) freshMoles"
    by (simp_all add: s')
  from hin board_ok_ids [OF game_inv_board [OF g]] obtain k where k: "k < HOLE_COUNT" "hole = int k"
    by auto
  from upSlots_fresh [OF k(1)] k(2) m have "upSlots s' = [hole]" by (simp add: upSlots_def)
  with l ne show ?thesis by simp
qed

lemma board_ok_length: "board_ok ms \<Longrightarrow> length ms = HOLE_COUNT"
proof -
  assume "board_ok ms"
  then have "length (map id' ms) = length (map int [0..<HOLE_COUNT])"
    by (simp only: board_ok_def)
  then show ?thesis by simp
qed

lemma board_ok_nth: "board_ok ms \<Longrightarrow> k < HOLE_COUNT \<Longrightarrow> id' (ms ! k) = int k"
proof -
  assume b: "board_ok ms" and k: "k < HOLE_COUNT"
  from b have "map id' ms ! k = map int [0..<HOLE_COUNT] ! k" by (simp only: board_ok_def)
  with k board_ok_length [OF b] show ?thesis by simp
qed

lemma randomHole_can_return:
  assumes b: "board_ok cm"
  shows "\<exists>r hole. randomHole cm [r] s = Inr (hole, [], s\<lparr>lastHoleRef := hole\<rparr>)"
proof -
  define k :: nat where "k = (if lastHoleRef s = 0 then 1 else 0)"
  have k: "k < HOLE_COUNT" and ne: "int k \<noteq> lastHoleRef s"
    by (simp_all add: k_def HOLE_COUNT_def)
  have len: "length cm = 6" using board_ok_length [OF b] by (simp add: HOLE_COUNT_def)
  have fl: "\<lfloor>real k / 6 * real (length cm)\<rfloor> = int k" by (simp add: len)
  from k have "int k < 6" by (simp add: HOLE_COUNT_def)
  with fl ne board_ok_nth [OF b k] len
  have "randomHole cm [real k / 6] s = Inr (int k, [], s\<lparr>lastHoleRef := int k\<rparr>)"
    by (simp add: Let_def)
  then show ?thesis by blast
qed

lemma peep_can_return:
  assumes "board_ok cm"
  shows "\<exists>rs s'. peep cm rs s = Inr s'"
proof (cases "isPlayingRef s")
  case False
  then have "peep cm [] s = Inr s" by (simp add: peep_def)
  then show ?thesis by blast
next
  case True
  from randomHole_can_return [OF assms, of s] obtain r hole where
    "randomHole cm [r] s = Inr (hole, [], s\<lparr>lastHoleRef := hole\<rparr>)" by blast
  with True have "\<exists>s'. peep cm [0, r] s = Inr s'" by (simp add: peep_def Let_def)
  then show ?thesis by blast
qed

lemma timeout_step_can_return:
  assumes g: "game_inv s" and t: "timers s h = Some (Timeout holeIdx time cm)"
  shows "\<exists>rs s'. step s (TimeoutFires h rs) = Inr s'"
proof -
  have run: "isPlayingRef s"
  proof (rule ccontr)
    assume "\<not> isPlayingRef s"
    from game_inv_stopped [OF g this] t show False by simp
  qed
  from game_inv_armed [OF g run] obtain hp hg t0 cm0 c where a: "armed s hp hg t0 cm0 c"
    by blast
  from t have "h \<in> dom (timers s)" by blast
  with a t have "h = hp" by (auto simp: armed_def)
  with a t have "board_ok cm" by (simp add: armed_def)
  from peep_can_return [OF this] obtain rs s' where
    "peep cm rs (s\<lparr>timers := (timers s)(h := None),
                 moles := map (\<lambda>m. if id' m = holeIdx then m\<lparr>status := IDLE\<rparr> else m) (moles s)\<rparr>) = Inr s'"
    by blast
  with run t have "step s (TimeoutFires h rs) = Inr s'"
    by (simp add: step_def peepTimeout_def Let_def)
  then show ?thesis by blast
qed


lemma randomHole_accepts:
  assumes b: "board_ok cm" and r: "0 \<le> r" "r < 1"
    and ne: "\<lfloor>r * real HOLE_COUNT\<rfloor> \<noteq> lastHoleRef s"
  shows "randomHole cm (r # rest) s
         = Inr (\<lfloor>r * real HOLE_COUNT\<rfloor>, rest, s\<lparr>lastHoleRef := \<lfloor>r * real HOLE_COUNT\<rfloor>\<rparr>)"
proof -
  let ?idx = "\<lfloor>r * real HOLE_COUNT\<rfloor>"
  have len: "length cm = HOLE_COUNT" by (rule board_ok_length [OF b])
  from r have "0 \<le> r * real HOLE_COUNT" "r * real HOLE_COUNT < real HOLE_COUNT"
    by (simp_all add: HOLE_COUNT_def)
  then have lo: "0 \<le> ?idx" and hi: "?idx < int HOLE_COUNT"
    by (simp_all add: floor_less_iff)
  then have k: "nat ?idx < HOLE_COUNT" by linarith
  from board_ok_nth [OF b k] lo have "id' (cm ! nat ?idx) = ?idx" by simp
  with lo hi ne len show ?thesis by (simp add: Let_def)
qed

lemma timeout_step_returns:
  assumes g: "game_inv s" and t: "timers s h = Some (Timeout holeIdx time cm)"
    and r: "0 \<le> r" "r < 1" and ne: "\<lfloor>r * real HOLE_COUNT\<rfloor> \<noteq> holeIdx"
  shows "\<exists>s'. step s (TimeoutFires h (r0 # r # rest)) = Inr s'"
proof -
  have run: "isPlayingRef s"
  proof (rule ccontr)
    assume "\<not> isPlayingRef s"
    from game_inv_stopped [OF g this] t show False by simp
  qed
  from game_inv_armed [OF g run] obtain hp hg t0 cm0 c where a: "armed s hp hg t0 cm0 c"
    by blast
  from t have "h \<in> dom (timers s)" by blast
  with a t have "h = hp" by (auto simp: armed_def)
  with a t have b: "board_ok cm" and eq: "holeIdx = lastHoleRef s" by (simp_all add: armed_def)
  let ?s1 = "s\<lparr>timers := (timers s)(h := None),
                moles := map (\<lambda>m. if id' m = holeIdx then m\<lparr>status := IDLE\<rparr> else m) (moles s)\<rparr>"
  from ne eq have "\<lfloor>r * real HOLE_COUNT\<rfloor> \<noteq> lastHoleRef ?s1" by simp
  from randomHole_accepts [OF b r this, of rest] run t
  show ?thesis by (simp add: step_def peepTimeout_def peep_def Let_def)
qed

section \<open>The claims\<close>

subsection \<open>The random helpers\<close>

text \<open>
  C10. For integer bounds \<open>minMs \<le> maxMs\<close> and every value \<open>r\<close> of \<^verbatim>\<open>Math.random()\<close>
  in \<open>[0, 1)\<close>, \<^verbatim>\<open>randomTime(minMs, maxMs)\<close> is an integer between \<open>minMs\<close> and
  \<open>maxMs\<close> inclusive, at most half a millisecond away from \<open>r * (maxMs - minMs) + minMs\<close>,
  and both bounds are reached by some value of \<open>r\<close> in \<open>[0, 1)\<close>.
\<close>

theorem randomTime_in_range:
  fixes minMs maxMs :: int and r :: real
  assumes "minMs \<le> maxMs" and "0 \<le> r" and "r < 1"
  shows "minMs \<le> randomTime (real_of_int minMs) (real_of_int maxMs) r \<and>
         randomTime (real_of_int minMs) (real_of_int maxMs) r \<le> maxMs \<and>
         \<bar>real_of_int (randomTime (real_of_int minMs) (real_of_int maxMs) r)
            - (r * (real_of_int maxMs - real_of_int minMs) + real_of_int minMs)\<bar> \<le> 1 / 2 \<and>
         (\<exists>r0. 0 \<le> r0 \<and> r0 < 1 \<and> randomTime (real_of_int minMs) (real_of_int maxMs) r0 = minMs) \<and>
         (\<exists>r1. 0 \<le> r1 \<and> r1 < 1 \<and> randomTime (real_of_int minMs) (real_of_int maxMs) r1 = maxMs)"
proof -
  let ?d = "real_of_int maxMs - real_of_int minMs"
  let ?x = "r * ?d + real_of_int minMs"
  from assms(1) have d0: "0 \<le> ?d" by simp
  with assms(2) have "0 \<le> r * ?d" by simp
  then have lo: "real_of_int minMs \<le> ?x" by simp
  from d0 assms(3) have "r * ?d \<le> 1 * ?d" by (intro mult_right_mono) simp_all
  then have hi: "?x \<le> real_of_int maxMs" by simp
  have a: "minMs \<le> randomTime (real_of_int minMs) (real_of_int maxMs) r"
    unfolding randomTime_def Math_round_def using lo by (simp add: le_floor_iff)
  have b: "randomTime (real_of_int minMs) (real_of_int maxMs) r \<le> maxMs"
    unfolding randomTime_def Math_round_def using hi by (simp add: floor_le_iff)
  have c: "\<bar>real_of_int (randomTime (real_of_int minMs) (real_of_int maxMs) r) - ?x\<bar> \<le> 1 / 2"
    unfolding randomTime_def by (rule Math_round_nearest)
  have d: "\<exists>r0. 0 \<le> r0 \<and> r0 < 1 \<and> randomTime (real_of_int minMs) (real_of_int maxMs) r0 = minMs"
    by (rule exI [of _ 0]) (simp add: randomTime_def Math_round_def)
  have e: "\<exists>r1. 0 \<le> r1 \<and> r1 < 1 \<and> randomTime (real_of_int minMs) (real_of_int maxMs) r1 = maxMs"
  proof (cases "minMs = maxMs")
    case True
    then show ?thesis
      by (intro exI [of _ 0]) (simp add: randomTime_def Math_round_def)
  next
    case False
    with assms(1) have "minMs < maxMs" by simp
    then have d1: "1 \<le> ?d" by linarith
    let ?r = "1 - 1 / (2 * ?d)"
    from d1 have "0 < 1 / (2 * ?d)" "1 / (2 * ?d) \<le> 1 / 2"
      by (simp_all add: field_simps)
    then have r: "0 \<le> ?r" "?r < 1" by simp_all
    from d1 have "?r * ?d = ?d - 1 / 2" by (simp add: field_simps)
    then have "?r * ?d + real_of_int minMs + 1 / 2 = real_of_int maxMs" by simp
    then have "randomTime (real_of_int minMs) (real_of_int maxMs) ?r = maxMs"
      unfolding randomTime_def Math_round_def by (simp only: floor_of_int)
    with r show ?thesis by blast
  qed
  from a b c d e show ?thesis by blast
qed

theorem randomTime_in_range_witness:
  "(400::int) \<le> 1000 \<and> (0::real) \<le> 1 / 2 \<and> (1 / 2 :: real) < 1 \<and>
   randomTime (real_of_int 400) (real_of_int 1000) (1 / 2) = 700 \<and>
   400 \<le> randomTime (real_of_int 400) (real_of_int 1000) (1 / 2) \<and>
   randomTime (real_of_int 400) (real_of_int 1000) (1 / 2) \<le> 1000"
  using randomTime_in_range [of 400 1000 "1 / 2"]
  by (simp add: randomTime_def Math_round_def)

text \<open>
  C9. Whenever \<^verbatim>\<open>randomHole\<close> returns, the hole differs from \<^verbatim>\<open>lastHoleRef.current\<close>
  as it was at the call, and it is the new \<^verbatim>\<open>lastHoleRef.current\<close>; so the next call
  that returns, on any board and any random values, returns another hole. This holds
  for every board, of two holes or more in particular.
\<close>

theorem randomHole_never_repeats:
  assumes "randomHole currentMoles rs s = Inr (hole, rs', s')"
  shows "hole \<noteq> lastHoleRef s \<and> lastHoleRef s' = hole \<and>
         (\<forall>nextMoles rs2 hole2 rs2' s2.
            randomHole nextMoles rs2 s' = Inr (hole2, rs2', s2) \<longrightarrow> hole2 \<noteq> hole)"
proof -
  from randomHole_returns [OF assms] have 1: "hole \<noteq> lastHoleRef s" and 2: "lastHoleRef s' = hole"
    by simp_all
  have "hole2 \<noteq> hole" if "randomHole nextMoles rs2 s' = Inr (hole2, rs2', s2)"
    for nextMoles rs2 hole2 rs2' s2
    using randomHole_returns [OF that] 2 by simp
  with 1 2 show ?thesis by blast
qed

theorem randomHole_never_repeats_witness:
  "randomHole freshMoles [0, 1 / 2] initialState = Inr (0, [1 / 2], initialState\<lparr>lastHoleRef := 0\<rparr>) \<and>
   randomHole freshMoles [0, 1 / 2] (initialState\<lparr>lastHoleRef := 0\<rparr>)
     = Inr (3, [], initialState\<lparr>lastHoleRef := 3\<rparr>) \<and>
   (0::int) \<noteq> lastHoleRef initialState \<and> (3::int) \<noteq> 0"
proof -
  have a: "randomHole freshMoles [0, 1 / 2] initialState = Inr (0, [1 / 2], initialState\<lparr>lastHoleRef := 0\<rparr>)"
    by (simp add: freshMoles_def HOLE_COUNT_def initialState_def upt_rec)
  have b: "randomHole freshMoles [0, 1 / 2] (initialState\<lparr>lastHoleRef := 0\<rparr>)
     = Inr (3, [], initialState\<lparr>lastHoleRef := 3\<rparr>)"
    by (simp add: freshMoles_def HOLE_COUNT_def initialState_def upt_rec)
  from randomHole_never_repeats [OF a] a b show ?thesis by blast
qed

subsection \<open>Whacks\<close>

text \<open>
  C4. A whack that is not trusted, or comes while \<^verbatim>\<open>isPlayingRef.current\<close> is false
  (in a reachable state: while \<^verbatim>\<open>isPlaying\<close> is false), or names a hole none of whose
  moles is \<^verbatim>\<open>UP\<close> (idle, whacked, or no such hole), leaves the whole state as it is:
  the score, every mole, the timers. \<^verbatim>\<open>handleWhack\<close> has no path that throws.
\<close>

theorem handleWhack_ignored:
  assumes "\<not> isTrusted \<or> \<not> isPlayingRef s \<or>
           (\<exists>es. run initialState es = Inr s \<and> \<not> isPlaying s) \<or>
           UP \<notin> set (statusAt s i)"
  shows "handleWhack i isTrusted s = s"
proof (cases "\<not> isTrusted \<or> \<not> isPlayingRef s")
  case True
  then show ?thesis by (simp add: handleWhack_def)
next
  case False
  have "UP \<notin> set (statusAt s i)"
  proof (rule ccontr)
    assume up: "\<not> UP \<notin> set (statusAt s i)"
    with assms False obtain es where "run initialState es = Inr s" "\<not> isPlaying s" by blast
    with game_inv_refs [OF reachable_inv] False show False by blast
  qed
  then have n: "\<not> (id' m = i \<and> status m = UP)" if "m \<in> set (moles s)" for m
    using that by (force simp: statusAt_def)
  then have "map (\<lambda>m. if id' m = i \<and> status m = UP then m\<lparr>status := WHACKED\<rparr> else m) (moles s) = moles s"
    by (intro map_idI) auto
  moreover from n have "filter (\<lambda>m. id' m = i \<and> status m = UP) (moles s) = []"
    by (auto simp: filter_empty_conv)
  ultimately show ?thesis by (simp add: handleWhack_def)
qed

theorem handleWhack_ignored_witness:
  "isPlayingRef playing \<and> statusAt playing 3 = [IDLE] \<and> handleWhack 3 True playing = playing \<and>
   statusAt playing 0 = [UP] \<and> handleWhack 0 False playing = playing \<and>
   run initialState [] = Inr initialState \<and> handleWhack 0 True initialState = initialState"
proof -
  have c: "\<not> True \<or> \<not> isPlayingRef initialState \<or>
           (\<exists>es. run initialState es = Inr initialState \<and> \<not> isPlaying initialState) \<or>
           UP \<notin> set (statusAt initialState 0)"
    by (simp add: initialState_def)
  have p: "isPlayingRef playing" "statusAt playing 3 = [IDLE]" "statusAt playing 0 = [UP]"
    by (simp_all add: playing_def step_def startGame_def peep_def freshMoles_def HOLE_COUNT_def
        initialState_def statusAt_def Let_def upt_rec)
  have a: "\<not> True \<or> \<not> isPlayingRef playing \<or>
           (\<exists>es. run initialState es = Inr playing \<and> \<not> isPlaying playing) \<or>
           UP \<notin> set (statusAt playing 3)"
    using p(2) by simp
  have b: "\<not> False \<or> \<not> isPlayingRef playing \<or>
           (\<exists>es. run initialState es = Inr playing \<and> \<not> isPlaying playing) \<or>
           UP \<notin> set (statusAt playing 0)"
    by simp
  from handleWhack_ignored [OF a] handleWhack_ignored [OF b] handleWhack_ignored [OF c] p
  show ?thesis by simp
qed

subsection \<open>One mole at a time\<close>

text \<open>
  C8. In every state that the events can reach from the first render, at most one mole
  is \<^verbatim>\<open>UP\<close>, and at most one timeout of \<^verbatim>\<open>peep\<close> is armed: two handles that
  both hold such a timeout are the same handle.
\<close>

theorem one_mole_up:
  assumes "run initialState es = Inr s"
  shows "length (upSlots s) \<le> 1 \<and>
         (\<forall>h h' hole time cm hole' time' cm'.
            timers s h = Some (Timeout hole time cm) \<and> timers s h' = Some (Timeout hole' time' cm')
            \<longrightarrow> h = h')"
proof -
  from reachable_inv [OF assms] have g: "game_inv s" .
  have up: "length (upSlots s) \<le> 1"
  proof (cases "isPlayingRef s")
    case True
    have "length (filter (\<lambda>m. status m = UP) (moles s)) \<le> 1"
    proof (rule filter_le1 [OF board_ok_distinct [OF game_inv_board [OF g]]])
      fix m assume "m \<in> set (moles s)" "status m = UP"
      with game_inv_hole [OF g True, of m] show "id' m = lastHoleRef s" by simp
    qed
    then show ?thesis by (simp add: upSlots_def)
  next
    case False
    with game_inv_stopped [OF g] have "filter (\<lambda>m. status m = UP) (moles s) = []"
      by (simp add: filter_empty_conv)
    then show ?thesis by (simp add: upSlots_def)
  qed
  have "h = h'" if t: "timers s h = Some (Timeout hole time cm)"
    and t': "timers s h' = Some (Timeout hole' time' cm')"
    for h h' hole time cm hole' time' cm'
  proof (cases "isPlayingRef s")
    case True
    from game_inv_armed [OF g True] obtain hp hg t0 cm0 c where a: "armed s hp hg t0 cm0 c"
      by blast
    from t t' have "h \<in> dom (timers s)" "h' \<in> dom (timers s)" by blast+
    with a t t' have "h = hp" "h' = hp" by (auto simp: armed_def)
    then show ?thesis by simp
  next
    case False
    with game_inv_stopped [OF g] t show ?thesis by simp
  qed
  with up show ?thesis by blast
qed

theorem one_mole_up_witness:
  "run initialState [ClickStart [1 / 2, 0]] = Inr playing \<and> upSlots playing = [0] \<and>
   length (upSlots playing) \<le> 1 \<and>
   timers playing 1 = Some (Timeout 0 700 freshMoles) \<and> timers playing 2 = Some (Interval 0)"
proof -
  have r: "run initialState [ClickStart [1 / 2, 0]] = Inr playing"
    by (simp add: playing_def step_def startGame_def peep_def freshMoles_def HOLE_COUNT_def
        initialState_def Let_def upt_rec)
  have v: "upSlots playing = [0]" "timers playing 1 = Some (Timeout 0 700 freshMoles)"
    "timers playing 2 = Some (Interval 0)"
    by (simp_all add: playing_def step_def startGame_def peep_def freshMoles_def HOLE_COUNT_def
        initialState_def upSlots_def Let_def upt_rec randomTime_def Math_round_def
        MIN_PEEP_TIME_def MAX_PEEP_TIME_def)
  from one_mole_up [OF r] r v show ?thesis by simp
qed

subsection \<open>Accepted whacks\<close>

text \<open>
  C5. In a reachable state, a trusted whack on a hole whose mole is \<^verbatim>\<open>UP\<close> while the
  game is played adds exactly 1 to the score and makes that mole \<^verbatim>\<open>WHACKED\<close>, the other
  holes staying as they are. Within a round, that is under every event but the click
  that starts one (\<^verbatim>\<open>startGame\<close> sets the score of the new round to 0), the score
  changes only by such a whack: it stays, or it grows by 1 while \<^verbatim>\<open>isPlaying\<close> holds,
  on a trusted whack of a hole whose mole is up.
\<close>

theorem whack_scores_one:
  assumes "run initialState es = Inr s"
  shows "(isPlayingRef s \<and> statusAt s i = [UP] \<longrightarrow>
            score (handleWhack i True s) = score s + 1 \<and>
            statusAt (handleWhack i True s) i = [WHACKED] \<and>
            (\<forall>j. j \<noteq> i \<longrightarrow> statusAt (handleWhack i True s) j = statusAt s j)) \<and>
         (\<forall>e s'. \<not> isClickStart e \<and> step s e = Inr s' \<longrightarrow>
            score s' = score s \<or>
            (score s' = score s + 1 \<and> isPlaying s \<and>
             (\<exists>j. e = Whack j True \<and> statusAt s j = [UP])))"
proof -
  from reachable_inv [OF assms] have g: "game_inv s" .
  have 2: "score s' = score s \<or>
            (score s' = score s + 1 \<and> isPlaying s \<and>
             (\<exists>j. e = Whack j True \<and> statusAt s j = [UP]))"
    if e: "\<not> isClickStart e" and st: "step s e = Inr s'" for e s'
  proof (cases e)
    case (ClickStart rs)
    with e show ?thesis by simp
  next
    case (Whack j t)
    with st have "s' = handleWhack j t s" by (simp add: step_def)
    with handleWhack_score [OF g, of j t] Whack show ?thesis by auto
  next
    case (TimeoutFires h rs)
    show ?thesis
    proof (cases "timers s h")
      case None
      with st TimeoutFires show ?thesis by (simp add: step_def)
    next
      case (Some tm)
      show ?thesis
      proof (cases tm)
        case (Timeout holeIdx time cm)
        with st Some TimeoutFires
        have "peepTimeout holeIdx cm rs (s\<lparr>timers := (timers s)(h := None)\<rparr>) = Inr s'"
          by (simp add: step_def)
        from game_inv_peepTimeout [OF g _ this] Some Timeout show ?thesis by simp
      next
        case (Interval c)
        with st Some TimeoutFires show ?thesis by (simp add: step_def)
      qed
    qed
  next
    case (IntervalFires h)
    with st show ?thesis
      by (auto simp: step_def gameTimerTick_def endGame_def split: option.splits timer.splits)
  qed
  from handleWhack_up [of s i] 2 show ?thesis by blast
qed

theorem whack_scores_one_witness:
  "isPlayingRef playing \<and> statusAt playing 0 = [UP] \<and> score playing = 0 \<and>
   score (handleWhack 0 True playing) = 1 \<and>
   statusAt (handleWhack 0 True playing) 0 = [WHACKED] \<and>
   statusAt (handleWhack 0 True playing) 3 = statusAt playing 3 \<and>
   step playing (Whack 0 True) = Inr (handleWhack 0 True playing) \<and> isPlaying playing"
proof -
  have r: "run initialState [ClickStart [1 / 2, 0]] = Inr playing"
    by (simp add: playing_def step_def startGame_def peep_def freshMoles_def HOLE_COUNT_def
        initialState_def Let_def upt_rec)
  have p: "isPlayingRef playing" "isPlaying playing" "statusAt playing 0 = [UP]" "score playing = 0"
    by (simp_all add: playing_def step_def startGame_def peep_def freshMoles_def HOLE_COUNT_def
        initialState_def statusAt_def Let_def upt_rec)
  have s: "step playing (Whack 0 True) = Inr (handleWhack 0 True playing)"
    by (simp add: step_def)
  from whack_scores_one [OF r, of 0] p
  have "score (handleWhack 0 True playing) = 1"
    "statusAt (handleWhack 0 True playing) 0 = [WHACKED]"
    "statusAt (handleWhack 0 True playing) 3 = statusAt playing 3"
    by simp_all
  with p s show ?thesis by simp
qed

subsection \<open>The hide timer\<close>

text \<open>
  C6. In a reachable state with the timeout of a hole armed, a whack (accepted or not)
  leaves the table of timers as it is, the timeout with its delay included; and when
  that timeout fires after the whack, the mole of its hole is \<^verbatim>\<open>IDLE\<close>, whether it
  was \<^verbatim>\<open>UP\<close> or \<^verbatim>\<open>WHACKED\<close> before. The callback does return: on some random
  values in any case, and on all those whose first draw for the hole, a value of
  \<open>[0, 1)\<close>, falls on another hole than the one that goes down.
\<close>

theorem hide_is_unconditional:
  assumes "run initialState es = Inr s" and "timers s h = Some (Timeout holeIdx time cm)"
  shows "timers (handleWhack i t s) = timers s \<and>
         peepTimerRef (handleWhack i t s) = peepTimerRef s \<and>
         (\<forall>rs s'. step (handleWhack i t s) (TimeoutFires h rs) = Inr s'
            \<longrightarrow> statusAt s' holeIdx = [IDLE]) \<and>
         (\<exists>rs s'. step (handleWhack i t s) (TimeoutFires h rs) = Inr s' \<and>
            statusAt s' holeIdx = [IDLE]) \<and>
         (\<forall>r0 r rest. 0 \<le> r \<and> r < 1 \<and> \<lfloor>r * real HOLE_COUNT\<rfloor> \<noteq> holeIdx \<longrightarrow>
            (\<exists>s'. step (handleWhack i t s) (TimeoutFires h (r0 # r # rest)) = Inr s' \<and>
               statusAt s' holeIdx = [IDLE]))"
proof -
  let ?w = "handleWhack i t s"
  from reachable_inv [OF assms(1)] have "game_inv s" .
  then have g: "game_inv ?w" by (rule game_inv_handleWhack)
  from assms(2) have tw: "timers ?w h = Some (Timeout holeIdx time cm)"
    by (simp add: handleWhack_timers)
  have hid: "statusAt s' holeIdx = [IDLE]" if st: "step ?w (TimeoutFires h rs) = Inr s'" for rs s'
  proof -
    from st tw have "peepTimeout holeIdx cm rs (?w\<lparr>timers := (timers ?w)(h := None)\<rparr>) = Inr s'"
      by (simp add: step_def)
    from game_inv_peepTimeout [OF g tw this]
    have g': "game_inv s'" and eq: "holeIdx = lastHoleRef ?w" and ne: "lastHoleRef s' \<noteq> holeIdx"
      and run: "isPlayingRef ?w" and run': "isPlayingRef s'"
      by simp_all
    from game_inv_lastHole [OF g run] eq have "holeIdx \<in> id' ` set (moles ?w)" by simp
    with board_ok_ids [OF game_inv_board [OF g]] board_ok_ids [OF game_inv_board [OF g']]
    have "holeIdx \<in> id' ` set (moles s')" by simp
    from filter_unique [OF board_ok_distinct [OF game_inv_board [OF g']] this]
    obtain m where m: "m \<in> set (moles s')" "id' m = holeIdx"
      "filter (\<lambda>y. id' y = holeIdx) (moles s') = [m]"
      by blast
    have "status m = IDLE"
    proof (rule ccontr)
      assume "status m \<noteq> IDLE"
      from game_inv_hole [OF g' run' m(1) this] m(2) ne show False by simp
    qed
    with m(3) show ?thesis by (simp add: statusAt_def)
  qed
  from timeout_step_can_return [OF g tw] hid
  have ex: "\<exists>rs s'. step ?w (TimeoutFires h rs) = Inr s' \<and> statusAt s' holeIdx = [IDLE]"
    by blast
  have ret: "\<exists>s'. step ?w (TimeoutFires h (r0 # r # rest)) = Inr s' \<and> statusAt s' holeIdx = [IDLE]"
    if "0 \<le> r \<and> r < 1 \<and> \<lfloor>r * real HOLE_COUNT\<rfloor> \<noteq> holeIdx" for r0 r rest
  proof -
    from that timeout_step_returns [OF g tw, of r r0 rest] obtain s' where
      "step ?w (TimeoutFires h (r0 # r # rest)) = Inr s'" by blast
    with hid show ?thesis by blast
  qed
  from handleWhack_timers [of i t s] hid ex ret show ?thesis by blast
qed

theorem hide_is_unconditional_witness:
  "timers playing 1 = Some (Timeout 0 700 freshMoles) \<and>
   statusAt (handleWhack 0 True playing) 0 = [WHACKED] \<and>
   timers (handleWhack 0 True playing) = timers playing \<and>
   step (handleWhack 0 True playing) (TimeoutFires 1 [1 / 2, 1 / 2])
     = Inr (projr (step (handleWhack 0 True playing) (TimeoutFires 1 [1 / 2, 1 / 2]))) \<and>
   statusAt (projr (step (handleWhack 0 True playing) (TimeoutFires 1 [1 / 2, 1 / 2]))) 0 = [IDLE] \<and>
   statusAt (projr (step (handleWhack 0 True playing) (TimeoutFires 1 [1 / 2, 1 / 2]))) 3 = [UP]"
proof -
  have r: "run initialState [ClickStart [1 / 2, 0]] = Inr playing"
    by (simp add: playing_def step_def startGame_def peep_def freshMoles_def HOLE_COUNT_def
        initialState_def Let_def upt_rec)
  have t: "timers playing 1 = Some (Timeout 0 700 freshMoles)"
    by (simp add: playing_def step_def startGame_def peep_def freshMoles_def HOLE_COUNT_def
        initialState_def Let_def upt_rec randomTime_def Math_round_def
        MIN_PEEP_TIME_def MAX_PEEP_TIME_def)
  have w: "statusAt (handleWhack 0 True playing) 0 = [WHACKED]"
    by (simp add: playing_def step_def startGame_def peep_def freshMoles_def HOLE_COUNT_def
        initialState_def statusAt_def handleWhack_def Let_def upt_rec)
  have s: "step (handleWhack 0 True playing) (TimeoutFires 1 [1 / 2, 1 / 2])
           = Inr (projr (step (handleWhack 0 True playing) (TimeoutFires 1 [1 / 2, 1 / 2])))"
    by (simp add: playing_def step_def startGame_def peep_def peepTimeout_def freshMoles_def
        HOLE_COUNT_def initialState_def handleWhack_def Let_def upt_rec)
  have u: "statusAt (projr (step (handleWhack 0 True playing) (TimeoutFires 1 [1 / 2, 1 / 2]))) 3 = [UP]"
    by (simp add: playing_def step_def startGame_def peep_def peepTimeout_def freshMoles_def
        HOLE_COUNT_def initialState_def handleWhack_def statusAt_def Let_def upt_rec)
  from hide_is_unconditional [OF r t, of 0 True] s w t u show ?thesis by simp
qed

subsection \<open>The end of a game\<close>

text \<open>
  C3. Let \<^verbatim>\<open>endGame\<close> run in a reachable state, on its own or from the tick of the
  interval that finds \<^verbatim>\<open>timeLeft\<close> at 1 or below, with a timeout and an interval armed
  or not. Afterwards no timer is armed and the game is not played; every sequence of
  whacks and of firings of timers leaves the whole state as it is (only a click on
  Start, which begins another game, changes it); and the callbacks that were armed
  before would change no mole and no score even if they ran: the one of the timeout
  returns the state as it is and does not call \<^verbatim>\<open>peep\<close>, the tick of the interval
  leaves the moles and the score alone.
\<close>

theorem nothing_after_endGame:
  assumes "run initialState es = Inr s"
    and "s' = endGame c s \<or> (timeLeft s \<le> 1 \<and> s' = gameTimerTick c s)"
    and "\<forall>e \<in> set es'. \<not> isClickStart e"
  shows "timers s' = Map.empty \<and> \<not> isPlayingRef s' \<and> run s' es' = Inr s' \<and>
         peepTimeout holeIdx cm rs s' = Inr s' \<and>
         moles (gameTimerTick c' s') = moles s' \<and> score (gameTimerTick c' s') = score s'"
proof -
  from reachable_inv [OF assms(1)] have g: "game_inv s" .
  from assms(2) have g': "game_inv s'"
    using game_inv_endGame [OF g, of c] game_inv_gameTimerTick [OF g, of c] by blast
  from assms(2) have n: "\<not> isPlayingRef s'"
    by (auto simp: endGame_def gameTimerTick_def)
  from stopped_quiet [OF g' n assms(3)] n show ?thesis by simp
qed

theorem nothing_after_endGame_witness:
  "timers playing 1 = Some (Timeout 0 700 freshMoles) \<and> timers playing 2 = Some (Interval 0) \<and>
   timers (endGame 0 playing) = Map.empty \<and>
   run (endGame 0 playing) [TimeoutFires 1 [1 / 2, 1 / 2], IntervalFires 2, Whack 0 True]
     = Inr (endGame 0 playing) \<and>
   peepTimeout 0 freshMoles [1 / 2, 1 / 2] (endGame 0 playing) = Inr (endGame 0 playing)"
proof -
  have r: "run initialState [ClickStart [1 / 2, 0]] = Inr playing"
    by (simp add: playing_def step_def startGame_def peep_def freshMoles_def HOLE_COUNT_def
        initialState_def Let_def upt_rec)
  have t: "timers playing 1 = Some (Timeout 0 700 freshMoles)" "timers playing 2 = Some (Interval 0)"
    by (simp_all add: playing_def step_def startGame_def peep_def freshMoles_def HOLE_COUNT_def
        initialState_def Let_def upt_rec randomTime_def Math_round_def
        MIN_PEEP_TIME_def MAX_PEEP_TIME_def)
  have q: "\<forall>e \<in> set [TimeoutFires 1 [1 / 2, 1 / 2], IntervalFires 2, Whack 0 True]. \<not> isClickStart e"
    by simp
  have e: "endGame 0 playing = endGame 0 playing \<or>
           (timeLeft playing \<le> 1 \<and> endGame 0 playing = gameTimerTick 0 playing)"
    by simp
  from nothing_after_endGame [OF r e q, of 0 freshMoles "[1 / 2, 1 / 2]"] t show ?thesis by simp
qed

text \<open>
  C7. \<^verbatim>\<open>endGame\<close> has no guard on the phase; called again, it applies the same updates,
  and they change nothing: two calls in a row give the state that one call gives,
  also when the first call is the one made by the last tick of the interval, and a
  call on the state of the first render (nothing started) returns that state. The
  equalities are between whole states: phase, score, best score, moles, refs, timers.
  Both calls are through the same closure, as the one call site of the code has it;
  \<^verbatim>\<open>highScore\<close> is the only field that a call through another closure, with a larger
  captured score, would still change.
\<close>

theorem endGame_idempotent:
  "endGame c (endGame c s) = endGame c s \<and>
   (timeLeft s \<le> 1 \<longrightarrow> endGame c (gameTimerTick c s) = gameTimerTick c s) \<and>
   endGame (score initialState) initialState = initialState"
proof -
  have "clearTimer (peepTimerRef s) (clearTimer (gameTimerRef s)
          (clearTimer (peepTimerRef s) (clearTimer (gameTimerRef s) (timers s))))
        = clearTimer (peepTimerRef s) (clearTimer (gameTimerRef s) (timers s))"
    by (simp add: clearTimer_idem clearTimer_commute [of "gameTimerRef s" "peepTimerRef s"])
  then have 1: "endGame c (endGame c s) = endGame c s"
    and 2: "timeLeft s \<le> 1 \<Longrightarrow> endGame c (gameTimerTick c s) = gameTimerTick c s"
    by (simp_all add: endGame_def gameTimerTick_def comp_def)
  have 3: "endGame (score initialState) initialState = initialState"
    by (simp add: endGame_def initialState_def freshMoles_def)
  from 1 2 3 show ?thesis by blast
qed

theorem endGame_idempotent_witness:
  "isPlaying playing \<and> endGame 0 playing \<noteq> playing \<and>
   endGame 0 (endGame 0 playing) = endGame 0 playing \<and>
   timeLeft (playing\<lparr>timeLeft := 1\<rparr>) \<le> 1 \<and>
   endGame 0 (gameTimerTick 0 (playing\<lparr>timeLeft := 1\<rparr>)) = gameTimerTick 0 (playing\<lparr>timeLeft := 1\<rparr>)"
proof -
  have p: "isPlaying playing"
    by (simp add: playing_def step_def startGame_def peep_def freshMoles_def HOLE_COUNT_def
        initialState_def Let_def upt_rec)
  then have "isPlaying (endGame 0 playing) \<noteq> isPlaying playing" by (simp add: endGame_def)
  then have n: "endGame 0 playing \<noteq> playing" by auto
  from endGame_idempotent [of 0 playing] endGame_idempotent [of 0 "playing\<lparr>timeLeft := 1\<rparr>"] p n
  show ?thesis by simp
qed

subsection \<open>The first hole of a round\<close>

text \<open>
  C2, as the code has it. \<^verbatim>\<open>lastHoleRef\<close> starts at the sentinel \<open>-1\<close> and only
  \<^verbatim>\<open>randomHole\<close> writes it: \<^verbatim>\<open>startGame\<close> does not reset it, and \<^verbatim>\<open>endGame\<close>, the
  tick of the interval and \<^verbatim>\<open>handleWhack\<close> leave it alone. So in the first game after
  the first render every one of the \<^verbatim>\<open>HOLE_COUNT\<close> holes can come first; and whenever a
  game starts in a reachable state, the one mole that is up is in the hole now held by
  \<^verbatim>\<open>lastHoleRef\<close>, which differs from the hole it held at the click: in a later game,
  the last hole of the game before cannot come first.
\<close>

theorem first_hole_of_a_round:
  "lastHoleRef initialState = - 1 \<and>
   (\<forall>k<HOLE_COUNT. \<exists>rs s'. startGame rs initialState = Inr s' \<and> upSlots s' = [int k]) \<and>
   (\<forall>es s rs s'. run initialState es = Inr s \<and> \<not> isPlaying s \<and> startGame rs s = Inr s' \<longrightarrow>
      upSlots s' = [lastHoleRef s'] \<and> lastHoleRef s' \<noteq> lastHoleRef s) \<and>
   (\<forall>c s. lastHoleRef (endGame c s) = lastHoleRef s \<and>
          lastHoleRef (gameTimerTick c s) = lastHoleRef s) \<and>
   (\<forall>i t s. lastHoleRef (handleWhack i t s) = lastHoleRef s)"
proof (intro conjI allI impI)
  show "lastHoleRef initialState = - 1" by (simp add: initialState_def)
next
  fix k assume "k < HOLE_COUNT"
  then show "\<exists>rs s'. startGame rs initialState = Inr s' \<and> upSlots s' = [int k]"
    by (rule first_hole_any)
next
  fix es s rs s'
  assume a: "run initialState es = Inr s \<and> \<not> isPlaying s \<and> startGame rs s = Inr s'"
  then have "game_inv s" by (blast intro: reachable_inv)
  from startGame_shows [OF this] a
  show "upSlots s' = [lastHoleRef s']" "lastHoleRef s' \<noteq> lastHoleRef s" by blast+
next
  fix c s
  show "lastHoleRef (endGame c s) = lastHoleRef s" by (simp add: endGame_def)
  show "lastHoleRef (gameTimerTick c s) = lastHoleRef s"
    by (simp add: gameTimerTick_def endGame_def)
next
  fix i t s
  show "lastHoleRef (handleWhack i t s) = lastHoleRef s" by (simp add: handleWhack_def)
qed

theorem first_hole_of_a_round_witness:
  "run initialState firstRound = Inr (projr (run initialState firstRound)) \<and>
   lastHoleRef (projr (run initialState firstRound)) = 0 \<and>
   upSlots (projr (startGame [1 / 2, 0, 1 / 2] (projr (run initialState firstRound)))) = [3] \<and>
   lastHoleRef (projr (startGame [1 / 2, 0, 1 / 2] (projr (run initialState firstRound)))) = 3"
proof -
  let ?s = "projr (run initialState firstRound)"
  have r: "run initialState firstRound = Inr ?s"
    by (simp add: firstRound_def run_defs upt_rec eval_nat_numeral)
  have n: "\<not> isPlaying ?s" and l: "lastHoleRef ?s = 0"
    by (simp_all add: firstRound_def run_defs upt_rec eval_nat_numeral)
  have st: "startGame [1 / 2, 0, 1 / 2] ?s = Inr (projr (startGame [1 / 2, 0, 1 / 2] ?s))"
    and l': "lastHoleRef (projr (startGame [1 / 2, 0, 1 / 2] ?s)) = 3"
    by (simp_all add: firstRound_def run_defs upt_rec eval_nat_numeral)
  from first_hole_of_a_round r n st
  have "upSlots (projr (startGame [1 / 2, 0, 1 / 2] ?s)) = [lastHoleRef (projr (startGame [1 / 2, 0, 1 / 2] ?s))]"
    by blast
  with r l l' show ?thesis by simp
qed

text \<open>
  The claim as the specification states it fails in the second game: after the first
  game \<^verbatim>\<open>lastHoleRef\<close> holds hole 0, not the sentinel, and the draw that puts hole 0
  up in a first game is rejected in the second, where hole 3 of the next draw comes up.
\<close>

theorem first_hole_not_any_counterexample:
  "map_sum id upSlots (run initialState [ClickStart [1 / 2, 0, 1 / 2]]) = Inr [0] \<and>
   map_sum id lastHoleRef (run initialState firstRound) = Inr 0 \<and>
   map_sum id upSlots (run initialState (firstRound @ [ClickStart [1 / 2, 0, 1 / 2]])) = Inr [3]"
  by (simp add: firstRound_def run_defs upt_rec eval_nat_numeral)

subsection \<open>The best score\<close>

text \<open>
  C1. The \<^verbatim>\<open>endGame\<close> that the interval calls is the one of the render in which the
  game was started, and the \<^verbatim>\<open>score\<close> it reads is the score displayed then, not the
  score of the game that ends. In the first game, with one mole whacked, the game ends
  with \<^verbatim>\<open>score\<close> 1 and \<^verbatim>\<open>highScore\<close> still 0, where the maximum of the best score
  before and of the final score is 1.
\<close>

theorem endGame_reads_stale_score:
  "map_sum id isPlaying (run initialState firstRound) = Inr False \<and>
   map_sum id score (run initialState firstRound) = Inr 1 \<and>
   map_sum id highScore (run initialState firstRound) = Inr 0"
  by (simp add: firstRound_def run_defs upt_rec eval_nat_numeral)

end
